theory Spec2Isabelle
  imports Complex_Main "HOL-Library.Product_Lexorder" "HOL-Library.Multiset"
begin

section \<open>Numbers and rounding\<close>

text \<open>
  The scripts compute with Python floats. Here every amount is an exact rational number
  (\<^typ>\<open>rat\<close>), so the arithmetic below is the decimal arithmetic the scripts
  approximate. Python's \<^verbatim>\<open>round(x, 2)\<close> rounds the exact value of \<open>x\<close> to the
  nearest multiple of 0.01 and resolves an exact tie to the even neighbour.
\<close>

definition round_half_even :: "rat \<Rightarrow> int" where
  "round_half_even x =
     (let f = \<lfloor>x\<rfloor>; d = x - of_int f
      in if d < 1 / 2 then f
         else if 1 / 2 < d then f + 1
         else if even f then f else f + 1)"

definition round2 :: "rat \<Rightarrow> rat" where
  "round2 x = of_int (round_half_even (x * 100)) / 100"

text \<open>A whole number of cents: a multiple of 0.01.\<close>

definition cents :: "rat \<Rightarrow> bool" where
  "cents x = (of_int \<lfloor>x * 100\<rfloor> = x * 100)"

section \<open>Ledger builder\<close>

text \<open>
  A transaction is the tuple \<^verbatim>\<open>(date, desc, amount, balance)\<close> of
  \<^verbatim>\<open>generate_statements.py\<close> and \<^verbatim>\<open>generate_savings_statements.py\<close>.
  A date is \<^verbatim>\<open>datetime(year, month, day)\<close>; datetimes compare chronologically,
  which is the lexicographic order of (year, month, day).
\<close>

type_synonym date = "int \<times> int \<times> int"
type_synonym transaction = "date \<times> string \<times> rat \<times> rat"

definition tx_date :: "transaction \<Rightarrow> date" where
  "tx_date x = fst x"

definition tx_desc :: "transaction \<Rightarrow> string" where
  "tx_desc x = fst (snd x)"

definition tx_amount :: "transaction \<Rightarrow> rat" where
  "tx_amount x = fst (snd (snd x))"

definition tx_balance :: "transaction \<Rightarrow> rat" where
  "tx_balance x = snd (snd (snd x))"

text \<open>
  The recomputation loop shared by both scripts:
  \<^verbatim>\<open>
    balance = start_balance
    final_transactions = []
    for date, desc, amount, _ in transactions:
        balance = round(balance + amount, 2)
        final_transactions.append((date, desc, amount, balance))
    return final_transactions, balance
  \<close>
  The loop state is the pair of \<open>balance\<close> and \<open>final_transactions\<close>.
\<close>

fun recompute :: "rat \<Rightarrow> transaction list \<Rightarrow> transaction list \<Rightarrow> transaction list \<times> rat" where
  "recompute balance final_transactions [] = (final_transactions, balance)"
| "recompute balance final_transactions ((date, desc, amount, _) # rest) =
     (let balance' = round2 (balance + amount)
      in recompute balance' (final_transactions @ [(date, desc, amount, balance')]) rest)"

text \<open>
  The sort keys. \<^verbatim>\<open>list.sort(key=...)\<close> is a stable sort that compares keys only;
  \<^const>\<open>sort_key\<close> is the stable insertion sort of the HOL library, and any two stable
  sorts return the same list. Tuples compare lexicographically.
\<close>

definition checking_key :: "transaction \<Rightarrow> date \<times> rat" where
  "checking_key x = (tx_date x, - tx_amount x)"

definition savings_key :: "transaction \<Rightarrow> date" where
  "savings_key x = tx_date x"

text \<open>
  \<^verbatim>\<open>generate_transactions\<close> of \<^verbatim>\<open>generate_statements.py\<close>, from the sort on:
  \<^verbatim>\<open>transactions.sort(key=lambda x: (x[0], -x[2]))\<close>, then the loop. The list
  \<open>transactions\<close> is what the randomised part of the function has appended so far.
\<close>

definition generate_transactions :: "rat \<Rightarrow> transaction list \<Rightarrow> transaction list \<times> rat" where
  "generate_transactions start_balance transactions =
     recompute start_balance [] (sort_key checking_key transactions)"

text \<open>
  \<^verbatim>\<open>generate_savings_transactions\<close> of \<^verbatim>\<open>generate_savings_statements.py\<close>, from the
  sort on: \<^verbatim>\<open>transactions.sort(key=lambda x: x[0])\<close>, then the same loop. The two
  interest figures the function also returns are computed before the sort and are left out.
\<close>

definition generate_savings_transactions :: "rat \<Rightarrow> transaction list \<Rightarrow> transaction list \<times> rat" where
  "generate_savings_transactions start_balance transactions =
     recompute start_balance [] (sort_key savings_key transactions)"

text \<open>The fields of a transaction that the sort keys and the loop read.\<close>

definition without_balance :: "transaction \<Rightarrow> date \<times> string \<times> rat" where
  "without_balance x = (tx_date x, tx_desc x, tx_amount x)"

text \<open>
  A ledger is ordered by date ascending, ties broken by amount descending, when every
  earlier entry has an earlier date or the same date and an amount at least as large.
\<close>

definition ordered_by_date_amount :: "transaction list \<Rightarrow> bool" where
  "ordered_by_date_amount out =
     (\<forall>j < length out. \<forall>i < j.
        tx_date (out ! i) < tx_date (out ! j) \<or>
        (tx_date (out ! i) = tx_date (out ! j) \<and> tx_amount (out ! j) \<le> tx_amount (out ! i)))"

text \<open>Of two same-day entries, a credit (positive) stands before a debit (negative).\<close>

definition credits_before_debits :: "transaction list \<Rightarrow> bool" where
  "credits_before_debits out =
     (\<forall>i < length out. \<forall>j < length out.
        tx_date (out ! i) = tx_date (out ! j) \<and> 0 < tx_amount (out ! i) \<and>
        tx_amount (out ! j) < 0 \<longrightarrow> i < j)"

text \<open>
  What a stable sort by \<open>key\<close> may return for the input \<open>xs\<close>: a rearrangement of
  \<open>xs\<close>, ascending in the key, with entries of equal key in their input order.
\<close>

definition stable_sorted :: "('a \<Rightarrow> 'k::linorder) \<Rightarrow> 'a list \<Rightarrow> 'a list \<Rightarrow> bool" where
  "stable_sorted key xs ys =
     (mset ys = mset xs \<and> sorted (map key ys) \<and>
      (\<forall>x \<in> set xs. filter (\<lambda>y. key y = key x) ys = filter (\<lambda>y. key y = key x) xs))"

text \<open>Inputs used as examples.\<close>

definition three_fees :: "transaction list" where
  "three_fees =
     [((2024, 1, 3), ''Fee'', 1 / 250, 0), ((2024, 1, 2), ''Fee'', 1 / 250, 0),
      ((2024, 1, 1), ''Fee'', 1 / 250, 0)]"

definition debit_then_credit :: "transaction list" where
  "debit_then_credit =
     [((2024, 1, 10), ''Withdrawal'', - 50, 950), ((2024, 1, 10), ''Deposit'', 200, 1150)]"

section \<open>The savings transactions of a month\<close>

text \<open>
  \<^verbatim>\<open>generate_savings_transactions(year, month, start_balance, ytd_interest)\<close> builds its
  list before it sorts it. \<^verbatim>\<open>calendar.monthrange\<close> raises \<^verbatim>\<open>IllegalMonthError\<close> for a
  month outside 1..12 and \<^verbatim>\<open>datetime(year, month, day)\<close> raises \<^verbatim>\<open>ValueError\<close> for a
  year outside 1..9999 or a day that the month does not have.
\<close>

datatype date_error = IllegalMonthError | ValueError

definition and_then :: "'e + 'a \<Rightarrow> ('a \<Rightarrow> 'e + 'b) \<Rightarrow> 'e + 'b" where
  "and_then r f = (case r of Inl e \<Rightarrow> Inl e | Inr x \<Rightarrow> f x)"

definition isleap :: "int \<Rightarrow> bool" where
  "isleap year = (year mod 4 = 0 \<and> (year mod 100 \<noteq> 0 \<or> year mod 400 = 0))"

definition mdays :: "int list" where
  "mdays = [0, 31, 28, 31, 30, 31, 30, 31, 31, 30, 31, 30, 31]"

text \<open>The second component of \<^verbatim>\<open>monthrange(year, month)\<close>; the first is discarded.\<close>

definition monthrange :: "int \<Rightarrow> int \<Rightarrow> date_error + int" where
  "monthrange year month =
     (if \<not> (1 \<le> month \<and> month \<le> 12) then Inl IllegalMonthError
      else Inr (mdays ! nat month + (if month = 2 \<and> isleap year then 1 else 0)))"

definition datetime :: "int \<Rightarrow> int \<Rightarrow> int \<Rightarrow> date_error + date" where
  "datetime year month day =
     (if \<not> (1 \<le> year \<and> year \<le> 9999) then Inl ValueError
      else if \<not> (1 \<le> month \<and> month \<le> 12) then Inl ValueError
      else if \<not> (1 \<le> day \<and>
                  day \<le> mdays ! nat month + (if month = 2 \<and> isleap year then 1 else 0))
        then Inl ValueError
      else Inr (year, month, day))"

definition MONTHLY_TRANSFER :: rat where
  "MONTHLY_TRANSFER = 500"

text \<open>\<^verbatim>\<open>ACCOUNT_INFO["apy"]\<close>, 4.25.\<close>

definition apy :: rat where
  "apy = 425 / 100"

definition withdrawal_reasons :: "(string \<times> rat \<times> rat) list" where
  "withdrawal_reasons =
     [(''Transfer to Checking - Car Repair'', (200, 600)),
      (''Transfer to Checking - Medical'', (150, 400)),
      (''Transfer to Checking - Home Repair'', (300, 800)),
      (''Transfer to Checking - Holiday Shopping'', (200, 500)),
      (''Transfer to Checking - Vacation'', (400, 1000))]"

text \<open>
  The values the function draws from \<^verbatim>\<open>random\<close>, in the order of the calls:
  \<^verbatim>\<open>randint(16, 20)\<close>, \<^verbatim>\<open>random()\<close>, \<^verbatim>\<open>choice(withdrawal_reasons)\<close>,
  \<^verbatim>\<open>uniform(amount_range[0], amount_range[1])\<close> and \<^verbatim>\<open>randint(5, last_day - 5)\<close>. The
  last three are drawn only when the second is below 0.30.
\<close>

record savings_draws =
  transfer_day :: int
  withdrawal_chance :: rat
  withdrawal_choice :: "string \<times> rat \<times> rat"
  withdrawal_uniform :: rat
  withdrawal_day :: int

text \<open>The ranges of these calls.\<close>

definition draws_in_range :: "int \<Rightarrow> savings_draws \<Rightarrow> bool" where
  "draws_in_range last_day draws =
     (16 \<le> transfer_day draws \<and> transfer_day draws \<le> 20 \<and>
      0 \<le> withdrawal_chance draws \<and> withdrawal_chance draws < 1 \<and>
      withdrawal_choice draws \<in> set withdrawal_reasons \<and>
      fst (snd (withdrawal_choice draws)) \<le> withdrawal_uniform draws \<and>
      withdrawal_uniform draws \<le> snd (snd (withdrawal_choice draws)) \<and>
      5 \<le> withdrawal_day draws \<and> withdrawal_day draws \<le> last_day - 5)"

text \<open>
  The list as it stands before the sort:
  \<^verbatim>\<open>
    transactions = []
    _, last_day = monthrange(year, month)
    balance = start_balance
    transfer_day = random.randint(16, 20)
    date = datetime(year, month, min(transfer_day, last_day))
    balance += MONTHLY_TRANSFER
    transactions.append((date, "Transfer from Checking ****4827", MONTHLY_TRANSFER, round(balance, 2)))
    monthly_rate = ACCOUNT_INFO["apy"] / 100 / 12
    interest = round(start_balance * monthly_rate, 2)
    ytd_interest += interest
    date = datetime(year, month, last_day)
    balance += interest
    transactions.append((date, "Interest Payment", interest, round(balance, 2)))
    if random.random() < 0.30:
        reason, amount_range = random.choice(withdrawal_reasons)
        amount = round(random.uniform(amount_range[0], amount_range[1]), 2)
        day = random.randint(5, last_day - 5)
        date = datetime(year, month, day)
        balance -= amount
        transactions.append((date, reason, -amount, round(balance, 2)))
  \<close>
  \<^const>\<open>generate_savings_transactions\<close> above continues from here with the same
  \<open>start_balance\<close>.
\<close>

definition build_savings_transactions ::
    "int \<Rightarrow> int \<Rightarrow> rat \<Rightarrow> savings_draws \<Rightarrow> date_error + transaction list" where
  "build_savings_transactions year month start_balance draws =
     and_then (monthrange year month) (\<lambda>last_day.
     and_then (datetime year month (min (transfer_day draws) last_day)) (\<lambda>date1.
       let balance1 = start_balance + MONTHLY_TRANSFER;
           transfer =
             (date1, ''Transfer from Checking ****4827'', MONTHLY_TRANSFER, round2 balance1);
           monthly_rate = apy / 100 / 12;
           interest = round2 (start_balance * monthly_rate)
       in
     and_then (datetime year month last_day) (\<lambda>date2.
       let balance2 = balance1 + interest;
           transactions = [transfer, (date2, ''Interest Payment'', interest, round2 balance2)]
       in
         if withdrawal_chance draws < 30 / 100 then
           let reason = fst (withdrawal_choice draws);
               amount = round2 (withdrawal_uniform draws)
           in
             and_then (datetime year month (withdrawal_day draws)) (\<lambda>date3.
               Inr (transactions @ [(date3, reason, - amount, round2 (balance2 - amount))]))
         else Inr transactions)))"

text \<open>The draws of a month in which the withdrawal falls on the day of the transfer.\<close>

definition same_day_draws :: savings_draws where
  "same_day_draws =
     \<lparr>transfer_day = 18, withdrawal_chance = 1 / 10,
      withdrawal_choice = (''Transfer to Checking - Car Repair'', (200, 600)),
      withdrawal_uniform = 350, withdrawal_day = 18\<rparr>"

section \<open>Progressive tax calculator\<close>

text \<open>
  A bracket limit is a number or \<^verbatim>\<open>float('inf')\<close>.
\<close>

datatype limit = Fin rat | PosInf

type_synonym bracket = "limit \<times> rat"

fun min_limit :: "rat \<Rightarrow> limit \<Rightarrow> rat" where
  "min_limit x (Fin b) = min x b"
| "min_limit x PosInf = x"

text \<open>
  The loop of \<^verbatim>\<open>calculate_tax\<close>:
  \<^verbatim>\<open>
    for bracket_limit, rate in brackets:
        if taxable_income <= prev_bracket:
            break
        taxable_in_bracket = min(taxable_income, bracket_limit) - prev_bracket
        tax += taxable_in_bracket * rate
        prev_bracket = bracket_limit
  \<close>
  The state is (\<open>tax\<close>, \<open>prev_bracket\<close>). Once \<open>prev_bracket\<close> is infinite the
  comparison \<^verbatim>\<open>taxable_income <= prev_bracket\<close> holds and the loop breaks, so the
  subtraction only ever sees a finite \<open>prev_bracket\<close>.
\<close>

fun tax_loop :: "rat \<Rightarrow> bracket list \<Rightarrow> rat \<times> limit \<Rightarrow> rat \<times> limit" where
  "tax_loop taxable_income [] (tax, prev_bracket) = (tax, prev_bracket)"
| "tax_loop taxable_income ((bracket_limit, rate) # rest) (tax, prev_bracket) =
     (case prev_bracket of
        PosInf \<Rightarrow> (tax, prev_bracket)
      | Fin p \<Rightarrow>
          if taxable_income \<le> p then (tax, prev_bracket)
          else
            let taxable_in_bracket = min_limit taxable_income bracket_limit - p
            in tax_loop taxable_income rest (tax + taxable_in_bracket * rate, bracket_limit))"

definition calculate_tax :: "rat \<Rightarrow> bracket list \<Rightarrow> rat" where
  "calculate_tax taxable_income brackets =
     round2 (fst (tax_loop taxable_income brackets (0, Fin 0)))"

text \<open>The table \<^verbatim>\<open>TAX_CONSTANTS_2023["brackets_mfj"]\<close>.\<close>

definition brackets_mfj :: "bracket list" where
  "brackets_mfj =
     [(Fin 22000, 10 / 100), (Fin 89450, 12 / 100), (Fin 190750, 22 / 100),
      (Fin 364200, 24 / 100), (Fin 462500, 32 / 100), (Fin 693750, 35 / 100),
      (PosInf, 37 / 100)]"

text \<open>
  A valid bracket table: the upper bounds increase strictly, starting above the initial
  \<open>prev_bracket = 0\<close>, with \<^verbatim>\<open>float('inf')\<close> above every number, and every
  marginal rate is a fraction in [0, 1]. An unbounded entry can thus only be the last.
\<close>

fun limit_less :: "limit \<Rightarrow> limit \<Rightarrow> bool" where
  "limit_less (Fin a) (Fin b) = (a < b)"
| "limit_less (Fin a) PosInf = True"
| "limit_less PosInf b = False"

fun valid_from :: "limit \<Rightarrow> bracket list \<Rightarrow> bool" where
  "valid_from prev [] = True"
| "valid_from prev ((bracket_limit, rate) # rest) =
     (limit_less prev bracket_limit \<and> 0 \<le> rate \<and> rate \<le> 1 \<and> valid_from bracket_limit rest)"

definition valid_brackets :: "bracket list \<Rightarrow> bool" where
  "valid_brackets brackets = valid_from (Fin 0) brackets"

text \<open>
  The tax on a list of bounded brackets each taken in full: the sum of bracket width times
  rate, the first bracket starting at \<open>prev\<close>. An unbounded bracket has no width to
  take in full and contributes nothing.
\<close>

fun full_bracket_tax :: "rat \<Rightarrow> bracket list \<Rightarrow> rat" where
  "full_bracket_tax prev [] = 0"
| "full_bracket_tax prev ((Fin b, rate) # rest) = (b - prev) * rate + full_bracket_tax b rest"
| "full_bracket_tax prev ((PosInf, rate) # rest) = full_bracket_tax prev rest"

text \<open>The last finite bound of a list of brackets, \<open>prev\<close> when there is none.\<close>

fun last_bound :: "rat \<Rightarrow> bracket list \<Rightarrow> rat" where
  "last_bound prev [] = prev"
| "last_bound prev ((Fin b, rate) # rest) = last_bound b rest"
| "last_bound prev ((PosInf, rate) # rest) = last_bound prev rest"

section \<open>Year-over-year change of a retirement account\<close>

datatype py_error = ZeroDivisionError

text \<open>
  From \<^verbatim>\<open>add_account_summary\<close> of \<^verbatim>\<open>generate_retirement_statements.py\<close>:
  \<^verbatim>\<open>
    change = summary_data['ending_balance'] - summary_data['beginning_balance']
    change_pct = (change / summary_data['beginning_balance']) * 100
  \<close>
  Python raises \<^verbatim>\<open>ZeroDivisionError\<close> when the divisor is zero. The result is the pair
  (\<open>change\<close>, \<open>change_pct\<close>) that the next line prints.
\<close>

definition add_account_summary :: "rat \<Rightarrow> rat \<Rightarrow> py_error + rat \<times> rat" where
  "add_account_summary ending_balance beginning_balance =
     (let change = ending_balance - beginning_balance
      in if beginning_balance = 0 then Inl ZeroDivisionError
         else Inr (change, (change / beginning_balance) * 100))"

section \<open>Evaluation of rounding\<close>

lemma floor_rat_divide_numeral [simp]:
  "\<lfloor>numeral a / numeral b :: rat\<rfloor> = numeral a div numeral b"
  by (metis floor_divide_of_int_eq of_int_numeral)

lemma floor_rat_minus_divide_numeral [simp]:
  "\<lfloor>- (numeral a / numeral b) :: rat\<rfloor> = - numeral a div numeral b"
  by (metis divide_minus_left floor_divide_of_int_eq of_int_neg_numeral of_int_numeral)

lemma floor_rat_one_divide_numeral [simp]:
  "\<lfloor>1 / numeral b :: rat\<rfloor> = 1 div numeral b"
  by (metis floor_divide_of_int_eq of_int_numeral of_int_1)

lemma floor_rat_minus_one_divide_numeral [simp]:
  "\<lfloor>- (1 / numeral b) :: rat\<rfloor> = - 1 div numeral b"
  by (metis divide_minus_left floor_divide_of_int_eq of_int_minus of_int_numeral of_int_1)

lemma round_half_even_of_int [simp]: "round_half_even (of_int n) = n"
  by (simp add: round_half_even_def)

lemma round_half_even_numeral [simp]:
  "round_half_even 0 = 0" "round_half_even 1 = 1"
  "round_half_even (numeral k) = numeral k"
  "round_half_even (- numeral k) = - numeral k"
  by (simp_all add: round_half_even_def)

lemma round2_of_int [simp]: "round2 (of_int n) = of_int n"
proof -
  have "of_int n * 100 = (of_int (n * 100) :: rat)"
    by simp
  then show ?thesis
    unfolding round2_def by (simp only: round_half_even_of_int)
qed

lemma round2_numeral [simp]:
  "round2 0 = 0" "round2 1 = 1"
  "round2 (numeral k) = numeral k"
  "round2 (- numeral k) = - numeral k"
  using round2_of_int [of 0] round2_of_int [of 1] round2_of_int [of "numeral k"]
    round2_of_int [of "- numeral k"]
  by simp_all

lemma cents_iff: "cents x \<longleftrightarrow> (\<exists>n. x * 100 = of_int n)"
  unfolding cents_def of_int_floor_cancel ..

lemma cents_Ints: "cents x \<longleftrightarrow> x * 100 \<in> \<int>"
  unfolding cents_iff Ints_def by auto

lemma round2_cents: "cents x \<Longrightarrow> round2 x = x"
proof -
  assume "cents x"
  then obtain n where e: "x * 100 = of_int n"
    unfolding cents_iff by blast
  then show ?thesis
    by (simp add: round2_def)
qed

lemma cents_round2 [simp]: "cents (round2 x)"
  by (simp add: cents_iff round2_def)

lemma cents_add: "cents x \<Longrightarrow> cents y \<Longrightarrow> cents (x + y)"
proof -
  assume "cents x" "cents y"
  then obtain m n where "x * 100 = of_int m" "y * 100 = of_int n"
    unfolding cents_iff by blast
  then have "(x + y) * 100 = of_int (m + n)"
    by (simp add: algebra_simps)
  then show ?thesis
    unfolding cents_iff by blast
qed

lemma round_half_even_floor:
  "round_half_even x = \<lfloor>x\<rfloor> \<or> round_half_even x = \<lfloor>x\<rfloor> + 1"
  by (simp add: round_half_even_def Let_def)

lemma round_half_even_mono:
  assumes "x \<le> y"
  shows "round_half_even x \<le> round_half_even y"
proof (cases "\<lfloor>x\<rfloor> = \<lfloor>y\<rfloor>")
  case True
  with assms show ?thesis
    by (auto simp: round_half_even_def Let_def)
next
  case False
  with assms have "\<lfloor>x\<rfloor> < \<lfloor>y\<rfloor>"
    by (simp add: floor_mono order.not_eq_order_implies_strict)
  then show ?thesis
    using round_half_even_floor [of x] round_half_even_floor [of y] by linarith
qed

lemma round2_mono: "x \<le> y \<Longrightarrow> round2 x \<le> round2 y"
  by (simp add: round2_def round_half_even_mono divide_right_mono)

section \<open>The recomputation loop\<close>

lemma tx_fields [simp]:
  "tx_date (d, s, a, x) = d" "tx_desc (d, s, a, x) = s"
  "tx_amount (d, s, a, x) = a" "tx_balance (d, s, a, x) = x"
  by (simp_all add: tx_date_def tx_desc_def tx_amount_def tx_balance_def)

lemma recompute_acc:
  "recompute b acc ts = (acc @ fst (recompute b [] ts), snd (recompute b [] ts))"
proof (induction ts arbitrary: b acc)
  case Nil
  show ?case by simp
next
  case (Cons t ts)
  obtain d s a x where t: "t = (d, s, a, x)"
    by (cases t) auto
  show ?case
    unfolding t recompute.simps Let_def
    by (subst Cons.IH, subst (2 3) Cons.IH) simp
qed

lemma recompute_Cons:
  "recompute b [] ((d, s, a, x) # ts) =
     ((d, s, a, round2 (b + a)) # fst (recompute (round2 (b + a)) [] ts),
      snd (recompute (round2 (b + a)) [] ts))"
  by (simp add: Let_def recompute_acc [of _ "[_]"])

declare recompute.simps(2) [simp del]
declare recompute_Cons [simp]

lemma length_recompute [simp]: "length (fst (recompute b [] ts)) = length ts"
  by (induction ts arbitrary: b) auto

lemma recompute_step:
  "i < length ts \<Longrightarrow>
   tx_balance (fst (recompute b [] ts) ! i) =
     round2 ((if i = 0 then b else tx_balance (fst (recompute b [] ts) ! (i - 1)))
             + tx_amount (fst (recompute b [] ts) ! i))"
proof (induction ts arbitrary: b i)
  case Nil
  then show ?case by simp
next
  case (Cons t ts)
  obtain d s a x where t: "t = (d, s, a, x)"
    by (cases t) auto
  show ?case
  proof (cases i)
    case 0
    then show ?thesis
      by (simp add: t)
  next
    case (Suc j)
    with Cons.prems have j: "j < length ts" by simp
    show ?thesis
      using Cons.IH [OF j, of "round2 (b + a)"] Suc
      by (cases j) (simp_all add: t)
  qed
qed

section \<open>The tax example\<close>

text \<open>
  C5. With the bracket table [(22000, 0.10), (89450, 0.12)] and taxable income 30000
  the tax calculator returns 3160.00.
\<close>

theorem calculate_tax_example:
  "calculate_tax 30000 [(Fin 22000, 10 / 100), (Fin 89450, 12 / 100)] = 3160"
  by (simp add: calculate_tax_def round2_def)

section \<open>Running balances\<close>

text \<open>
  C4. In the output ledger of either builder, every running balance is the previous
  running balance (the starting balance \<open>B\<close> for the first transaction) plus the
  transaction's amount, rounded to two decimal places at that step.
\<close>

theorem running_balance_stepwise:
  assumes "out = fst (generate_transactions B ts) \<or> out = fst (generate_savings_transactions B ts)"
    and "i < length out"
  shows "tx_balance (out ! i) =
           round2 ((if i = 0 then B else tx_balance (out ! (i - 1))) + tx_amount (out ! i))"
proof -
  from assms(1) obtain sorted_ts where out: "out = fst (recompute B [] sorted_ts)"
    unfolding generate_transactions_def generate_savings_transactions_def by blast
  from assms(2) have "i < length sorted_ts"
    by (simp add: out)
  then show ?thesis
    unfolding out by (rule recompute_step)
qed

text \<open>
  Three fees of 0.004 on successive days, from a starting balance of 0: the third posted
  balance is 0, the second balance plus 0.004 rounded, whereas the unrounded sum 0.012
  rounds to 0.01.
\<close>

theorem running_balance_stepwise_witness:
  "(2::nat) < length (fst (generate_transactions 0 three_fees)) \<and>
   tx_balance (fst (generate_transactions 0 three_fees) ! 2) =
     round2 (tx_balance (fst (generate_transactions 0 three_fees) ! 1)
             + tx_amount (fst (generate_transactions 0 three_fees) ! 2)) \<and>
   tx_balance (fst (generate_transactions 0 three_fees) ! 2) = 0 \<and>
   round2 (0 + sum_list (map tx_amount three_fees)) = 1 / 100"
  using running_balance_stepwise [of "fst (generate_transactions 0 three_fees)" 0 three_fees 2]
  by (simp add: three_fees_def generate_transactions_def checking_key_def
      round2_def round_half_even_def)

section \<open>Final balance\<close>

lemma snd_recompute_cents:
  "cents b \<Longrightarrow> \<forall>t \<in> set ts. cents (tx_amount t) \<Longrightarrow>
   snd (recompute b [] ts) = b + sum_list (map tx_amount ts)"
proof (induction ts arbitrary: b)
  case Nil
  show ?case by simp
next
  case (Cons t ts)
  obtain d s a x where t: "t = (d, s, a, x)"
    by (cases t) auto
  from Cons.prems have a: "cents a" and rest: "\<forall>t \<in> set ts. cents (tx_amount t)"
    by (simp_all add: t)
  from Cons.prems(1) a have r: "round2 (b + a) = b + a"
    by (simp add: cents_add round2_cents)
  from Cons.prems(1) a have "cents (b + a)"
    by (rule cents_add)
  from Cons.IH [OF this rest] show ?case
    by (simp add: t r)
qed

lemma sum_list_sort_key:
  "sum_list (map f (sort_key k ts)) = sum_list (map f (ts :: 'a list))"
  for f :: "'a \<Rightarrow> rat"
proof -
  have "mset (map f (sort_key k ts)) = mset (map f ts)"
    by simp
  then show ?thesis
    by (metis sum_mset_sum_list)
qed

lemma snd_recompute_amounts:
  "map tx_amount ts = map tx_amount ts' \<Longrightarrow>
   snd (recompute b [] ts) = snd (recompute b [] ts')"
proof (induction ts arbitrary: b ts')
  case Nil
  then show ?case by simp
next
  case (Cons t ts)
  from Cons.prems obtain t' us where ts': "ts' = t' # us"
    by (cases ts') auto
  obtain d s a x where t: "t = (d, s, a, x)"
    by (cases t) auto
  obtain d' s' a' x' where t': "t' = (d', s', a', x')"
    by (cases t') auto
  from Cons.prems have "a' = a" and "map tx_amount ts = map tx_amount us"
    by (simp_all add: ts' t t')
  with Cons.IH [of us "round2 (b + a)"] show ?case
    by (simp add: ts' t t')
qed

lemma map_key_sort_key: "map k (sort_key k xs) = sort (map k xs)"
proof (rule sym, rule properties_for_sort)
  show "mset (map k (sort_key k xs)) = mset (map k xs)" by simp
  show "sorted (map k (sort_key k xs))" by (rule sorted_sort_key)
qed

lemma sort_cong_mset: "mset xs = mset ys \<Longrightarrow> sort xs = sort ys"
  by (metis mset_sort properties_for_sort sorted_sort)

lemma checking_amounts_perm:
  assumes "mset ts' = mset ts"
  shows "map tx_amount (sort_key checking_key ts') = map tx_amount (sort_key checking_key ts)"
proof -
  have amount: "tx_amount = (\<lambda>k. - snd k) \<circ> checking_key"
    by (rule ext) (simp add: checking_key_def)
  from assms have "mset (map checking_key ts') = mset (map checking_key ts)"
    by simp
  then have "sort (map checking_key ts') = sort (map checking_key ts)"
    by (rule sort_cong_mset)
  then have "map checking_key (sort_key checking_key ts') =
      map checking_key (sort_key checking_key ts)"
    by (simp only: map_key_sort_key)
  then have "map ((\<lambda>k. - snd k) \<circ> checking_key) (sort_key checking_key ts') =
      map ((\<lambda>k. - snd k) \<circ> checking_key) (sort_key checking_key ts)"
    by (simp only: map_map [symmetric])
  then show ?thesis
    by (simp only: amount [symmetric])
qed

lemma cents_minus: "cents x \<Longrightarrow> cents (- x)"
  by (simp add: cents_Ints)




text \<open>
  For \<^const>\<open>generate_transactions\<close> the final balance is the same for every
  permutation whatever the amounts are, since its sort key fixes the order of the amounts.
\<close>

lemma checking_final_balance_perm:
  "mset ts' = mset ts \<Longrightarrow>
   snd (generate_transactions B ts') = snd (generate_transactions B ts)"
  unfolding generate_transactions_def
  by (intro snd_recompute_amounts checking_amounts_perm)

section \<open>The stored balance field\<close>

lemma without_balance_tuple [simp]: "without_balance (d, s, a, x) = (d, s, a)"
  by (simp add: without_balance_def)

lemma recompute_balance_ignored:
  "map without_balance ts = map without_balance ts' \<Longrightarrow>
   recompute b [] ts = recompute b [] ts'"
proof (induction ts arbitrary: b ts')
  case Nil
  then show ?case by simp
next
  case (Cons t ts)
  from Cons.prems obtain t' us where ts': "ts' = t' # us"
    by (cases ts') auto
  obtain d s a x where t: "t = (d, s, a, x)"
    by (cases t) auto
  obtain d' s' a' x' where t': "t' = (d', s', a', x')"
    by (cases t') auto
  from Cons.prems have "d' = d" "s' = s" "a' = a"
    and "map without_balance ts = map without_balance us"
    by (simp_all add: ts' t t')
  with Cons.IH [of us "round2 (b + a)"] show ?case
    by (simp add: ts' t t')
qed

lemma without_balance_recompute [simp]:
  "map without_balance (fst (recompute b [] ts)) = map without_balance ts"
proof (induction ts arbitrary: b)
  case Nil
  show ?case by simp
next
  case (Cons t ts)
  then show ?case by (cases t) simp
qed

lemma sort_key_without_balance:
  assumes key: "\<And>x. k x = h (without_balance x)"
    and eq: "map without_balance ts = map without_balance ts'"
  shows "map without_balance (sort_key k ts) = map without_balance (sort_key k ts')"
proof -
  have "map without_balance (sort_key k xs) = sort_key h (map without_balance xs)" for xs
  proof (induction xs)
    case Nil
    show ?case by simp
  next
    case (Cons x xs)
    have "map without_balance (insort_key k x ys) =
        insort_key h (without_balance x) (map without_balance ys)" for ys
      by (induction ys) (simp_all add: key)
    with Cons show ?case by simp
  qed
  with eq show ?thesis by simp
qed

lemma checking_key_without_balance:
  "checking_key x = (\<lambda>(d, s, a). (d, - a)) (without_balance x)"
  by (simp add: checking_key_def without_balance_def)

lemma savings_key_without_balance: "savings_key x = fst (without_balance x)"
  by (simp add: savings_key_def without_balance_def)

text \<open>
  C10. The recomputation does not read the balance carried in the input tuples: two
  inputs that agree on dates, descriptions and amounts give the same ledger and the same
  final balance, whatever their fourth components are.
\<close>

theorem stale_balances_ignored:
  assumes "map without_balance ts = map without_balance ts'"
  shows "generate_transactions B ts = generate_transactions B ts' \<and>
         generate_savings_transactions B ts = generate_savings_transactions B ts'"
proof
  have "map without_balance (sort_key checking_key ts) =
      map without_balance (sort_key checking_key ts')"
    using checking_key_without_balance assms by (rule sort_key_without_balance)
  then show "generate_transactions B ts = generate_transactions B ts'"
    unfolding generate_transactions_def by (rule recompute_balance_ignored)
  have "map without_balance (sort_key savings_key ts) =
      map without_balance (sort_key savings_key ts')"
    using savings_key_without_balance assms by (rule sort_key_without_balance)
  then show "generate_savings_transactions B ts = generate_savings_transactions B ts'"
    unfolding generate_savings_transactions_def by (rule recompute_balance_ignored)
qed

theorem stale_balances_ignored_witness:
  "map without_balance debit_then_credit =
     map without_balance [((2024, 1, 10), ''Withdrawal'', - 50, 7), ((2024, 1, 10), ''Deposit'', 200, - 3)] \<and>
   generate_transactions 1000 debit_then_credit =
     generate_transactions 1000 [((2024, 1, 10), ''Withdrawal'', - 50, 7), ((2024, 1, 10), ''Deposit'', 200, - 3)] \<and>
   generate_savings_transactions 1000 debit_then_credit =
     generate_savings_transactions 1000 [((2024, 1, 10), ''Withdrawal'', - 50, 7), ((2024, 1, 10), ''Deposit'', 200, - 3)] \<and>
   generate_transactions 1000 debit_then_credit =
     ([((2024, 1, 10), ''Deposit'', 200, 1200), ((2024, 1, 10), ''Withdrawal'', - 50, 1150)], 1150)"
  using stale_balances_ignored [of debit_then_credit
      "[((2024, 1, 10), ''Withdrawal'', - 50, 7), ((2024, 1, 10), ''Deposit'', 200, - 3)]" 1000]
  by (simp add: debit_then_credit_def generate_transactions_def checking_key_def round2_def)


section \<open>Determinism\<close>

lemma stable_sorted_unique:
  assumes "stable_sorted key xs ys"
  shows "sort_key key xs = ys"
proof (rule properties_for_sort_key)
  from assms show m: "mset ys = mset xs" and "sorted (map key ys)"
    by (simp_all add: stable_sorted_def)
  fix k
  assume "k \<in> set ys"
  with m have "k \<in> set xs"
    by (metis set_mset_mset)
  with assms have "filter (\<lambda>y. key y = key k) ys = filter (\<lambda>y. key y = key k) xs"
    by (simp add: stable_sorted_def)
  then show "filter (\<lambda>x. key k = key x) ys = filter (\<lambda>x. key k = key x) xs"
    by (simp add: eq_commute [of "key k"])
qed

lemma keys_recompute:
  assumes "\<And>x. k x = h (without_balance x)"
  shows "map k (fst (recompute b [] ts)) = map k ts"
proof -
  have "map k xs = map h (map without_balance xs)" for xs
    by (simp add: assms)
  then show ?thesis
    by (simp only: without_balance_recompute)
qed

lemma rebuild:
  assumes key: "\<And>x. k x = h (without_balance x)"
  shows "recompute b [] (sort_key k (fst (recompute b [] (sort_key k ts)))) =
         recompute b [] (sort_key k ts)"
proof -
  have "sorted (map k (fst (recompute b [] (sort_key k ts))))"
    by (simp only: keys_recompute [of k h, OF key] sorted_sort_key)
  then have "sort_key k (fst (recompute b [] (sort_key k ts))) = fst (recompute b [] (sort_key k ts))"
    by (rule sort_key_id_if_sorted)
  moreover have "recompute b [] (fst (recompute b [] (sort_key k ts))) = recompute b [] (sort_key k ts)"
    by (rule recompute_balance_ignored) simp
  ultimately show ?thesis by simp
qed

text \<open>
  C8. The ledger builder is deterministic. The output is determined by the input list and
  the starting balance alone: whatever stable sort produced the order, any two runs post
  the same ledger, the one computed here; and running a builder again on its own output
  returns that output unchanged.
\<close>

theorem ledger_builder_deterministic:
  "(stable_sorted checking_key ts run1 \<and> stable_sorted checking_key ts run2 \<longrightarrow>
      recompute B [] run1 = recompute B [] run2 \<and>
      recompute B [] run1 = generate_transactions B ts) \<and>
   (stable_sorted savings_key ts run1 \<and> stable_sorted savings_key ts run2 \<longrightarrow>
      recompute B [] run1 = recompute B [] run2 \<and>
      recompute B [] run1 = generate_savings_transactions B ts) \<and>
   generate_transactions B (fst (generate_transactions B ts)) = generate_transactions B ts \<and>
   generate_savings_transactions B (fst (generate_savings_transactions B ts)) =
     generate_savings_transactions B ts"
proof (intro conjI impI)
  assume "stable_sorted checking_key ts run1 \<and> stable_sorted checking_key ts run2"
  then have "sort_key checking_key ts = run1" "sort_key checking_key ts = run2"
    by (simp_all add: stable_sorted_unique)
  then show "recompute B [] run1 = recompute B [] run2"
    and "recompute B [] run1 = generate_transactions B ts"
    by (simp_all add: generate_transactions_def)
next
  assume "stable_sorted savings_key ts run1 \<and> stable_sorted savings_key ts run2"
  then have "sort_key savings_key ts = run1" "sort_key savings_key ts = run2"
    by (simp_all add: stable_sorted_unique)
  then show "recompute B [] run1 = recompute B [] run2"
    and "recompute B [] run1 = generate_savings_transactions B ts"
    by (simp_all add: generate_savings_transactions_def)
next
  show "generate_transactions B (fst (generate_transactions B ts)) = generate_transactions B ts"
    unfolding generate_transactions_def
    using checking_key_without_balance by (rule rebuild)
  show "generate_savings_transactions B (fst (generate_savings_transactions B ts)) =
      generate_savings_transactions B ts"
    unfolding generate_savings_transactions_def
    using savings_key_without_balance by (rule rebuild)
qed

theorem ledger_builder_deterministic_witness:
  "stable_sorted checking_key debit_then_credit
     [((2024, 1, 10), ''Deposit'', 200, 1150), ((2024, 1, 10), ''Withdrawal'', - 50, 950)] \<and>
   stable_sorted savings_key debit_then_credit debit_then_credit \<and>
   recompute 1000 []
     [((2024, 1, 10), ''Deposit'', 200, 1150), ((2024, 1, 10), ''Withdrawal'', - 50, 950)] =
     generate_transactions 1000 debit_then_credit \<and>
   recompute 1000 [] debit_then_credit = generate_savings_transactions 1000 debit_then_credit \<and>
   generate_transactions 1000 debit_then_credit =
     ([((2024, 1, 10), ''Deposit'', 200, 1200), ((2024, 1, 10), ''Withdrawal'', - 50, 1150)], 1150) \<and>
   generate_transactions 1000
     [((2024, 1, 10), ''Deposit'', 200, 1200), ((2024, 1, 10), ''Withdrawal'', - 50, 1150)] =
     ([((2024, 1, 10), ''Deposit'', 200, 1200), ((2024, 1, 10), ''Withdrawal'', - 50, 1150)], 1150)"
proof -
  have c: "stable_sorted checking_key debit_then_credit
     [((2024, 1, 10), ''Deposit'', 200, 1150), ((2024, 1, 10), ''Withdrawal'', - 50, 950)]"
    by (simp add: stable_sorted_def debit_then_credit_def checking_key_def)
  have s: "stable_sorted savings_key debit_then_credit debit_then_credit"
    by (simp add: stable_sorted_def debit_then_credit_def savings_key_def)
  have g: "generate_transactions 1000 debit_then_credit =
     ([((2024, 1, 10), ''Deposit'', 200, 1200), ((2024, 1, 10), ''Withdrawal'', - 50, 1150)], 1150)"
    by (simp add: debit_then_credit_def generate_transactions_def checking_key_def round2_def)
  show ?thesis
    using c s g
      ledger_builder_deterministic [of debit_then_credit
        "[((2024, 1, 10), ''Deposit'', 200, 1150), ((2024, 1, 10), ''Withdrawal'', - 50, 950)]"
        "[((2024, 1, 10), ''Deposit'', 200, 1150), ((2024, 1, 10), ''Withdrawal'', - 50, 950)]"
        1000]
      ledger_builder_deterministic [of debit_then_credit debit_then_credit debit_then_credit 1000]
    by simp
qed


section \<open>Posting order\<close>

lemma sorted_checking_ordered:
  assumes "sorted (map checking_key out)"
  shows "ordered_by_date_amount out"
  unfolding ordered_by_date_amount_def
proof (intro allI impI)
  fix j i
  assume j: "j < length out" and i: "i < j"
  with assms have "map checking_key out ! i \<le> map checking_key out ! j"
    by (simp add: sorted_iff_nth_mono_less)
  with i j have "checking_key (out ! i) \<le> checking_key (out ! j)"
    by simp
  then show "tx_date (out ! i) < tx_date (out ! j) \<or>
      (tx_date (out ! i) = tx_date (out ! j) \<and> tx_amount (out ! j) \<le> tx_amount (out ! i))"
    by (auto simp: checking_key_def)
qed

lemma ordered_credits_before_debits:
  assumes "ordered_by_date_amount out"
  shows "credits_before_debits out"
  unfolding credits_before_debits_def
proof (intro allI impI)
  fix i j
  assume i: "i < length out" and j: "j < length out"
    and h: "tx_date (out ! i) = tx_date (out ! j) \<and> 0 < tx_amount (out ! i) \<and>
      tx_amount (out ! j) < 0"
  show "i < j"
  proof (rule ccontr)
    assume "\<not> i < j"
    with h have "j < i"
      by (cases "i = j") auto
    with assms i have "tx_date (out ! j) < tx_date (out ! i) \<or>
        (tx_date (out ! j) = tx_date (out ! i) \<and> tx_amount (out ! i) \<le> tx_amount (out ! j))"
      unfolding ordered_by_date_amount_def by blast
    with h show False by auto
  qed
qed

lemma sorted_keys_ordered:
  assumes "sorted (map checking_key sorted_ts)"
  shows "ordered_by_date_amount (fst (recompute B [] sorted_ts)) \<and>
         credits_before_debits (fst (recompute B [] sorted_ts))"
proof -
  from assms have "sorted (map checking_key (fst (recompute B [] sorted_ts)))"
    by (simp only: keys_recompute [of checking_key _, OF checking_key_without_balance])
  then have "ordered_by_date_amount (fst (recompute B [] sorted_ts))"
    by (rule sorted_checking_ordered)
  then show ?thesis
    by (simp add: ordered_credits_before_debits)
qed

subsection \<open>The list of a savings month\<close>

lemma and_then_Inr [simp]: "and_then (Inr x) f = f x"
  by (simp add: and_then_def)

lemma and_then_Inl [simp]: "and_then (Inl e) f = Inl e"
  by (simp add: and_then_def)

lemma monthrange_days:
  assumes "monthrange year month = Inr last_day"
  shows "1 \<le> month \<and> month \<le> 12 \<and> 28 \<le> last_day \<and> last_day \<le> 31 \<and>
         last_day = mdays ! nat month + (if month = 2 \<and> isleap year then 1 else 0)"
proof -
  from assms have m: "1 \<le> month" "month \<le> 12"
    and l: "last_day = mdays ! nat month + (if month = 2 \<and> isleap year then 1 else 0)"
    by (auto simp: monthrange_def split: if_splits)
  from m have "month = 1 \<or> month = 2 \<or> month = 3 \<or> month = 4 \<or> month = 5 \<or> month = 6 \<or>
      month = 7 \<or> month = 8 \<or> month = 9 \<or> month = 10 \<or> month = 11 \<or> month = 12"
    by arith
  then have "28 \<le> last_day \<and> last_day \<le> 31"
    unfolding l by (auto simp: mdays_def)
  with m l show ?thesis by blast
qed

lemma datetime_valid:
  assumes "1 \<le> year" "year \<le> 9999" "monthrange year month = Inr last_day"
    and "1 \<le> day" "day \<le> last_day"
  shows "datetime year month day = Inr (year, month, day)"
  using assms monthrange_days [OF assms(3)] by (simp add: datetime_def)

lemma build_savings_transactions_valid:
  assumes y: "1 \<le> year" "year \<le> 9999"
    and l: "monthrange year month = Inr last_day"
    and d: "draws_in_range last_day draws"
  shows "build_savings_transactions year month start_balance draws =
    Inr ([((year, month, transfer_day draws), ''Transfer from Checking ****4827'', 500,
            round2 (start_balance + 500)),
          ((year, month, last_day), ''Interest Payment'',
            round2 (start_balance * (apy / 100 / 12)),
            round2 (start_balance + 500 + round2 (start_balance * (apy / 100 / 12))))] @
         (if withdrawal_chance draws < 30 / 100
          then [((year, month, withdrawal_day draws), fst (withdrawal_choice draws),
                 - round2 (withdrawal_uniform draws),
                 round2 (start_balance + 500 + round2 (start_balance * (apy / 100 / 12))
                         - round2 (withdrawal_uniform draws)))]
          else []))"
proof -
  from monthrange_days [OF l] have L: "28 \<le> last_day" "last_day \<le> 31"
    by simp_all
  from d have t: "16 \<le> transfer_day draws" "transfer_day draws \<le> 20"
    and w: "5 \<le> withdrawal_day draws" "withdrawal_day draws \<le> last_day - 5"
    by (simp_all add: draws_in_range_def)
  from t L have m: "min (transfer_day draws) last_day = transfer_day draws"
    by simp
  from t L have d1: "datetime year month (transfer_day draws) = Inr (year, month, transfer_day draws)"
    by (intro datetime_valid [OF y l]) simp_all
  from L have d2: "datetime year month last_day = Inr (year, month, last_day)"
    by (intro datetime_valid [OF y l]) simp_all
  from w have d3: "datetime year month (withdrawal_day draws) = Inr (year, month, withdrawal_day draws)"
    by (intro datetime_valid [OF y l]) simp_all
  show ?thesis
    by (simp add: build_savings_transactions_def l m d1 d2 d3 Let_def MONTHLY_TRANSFER_def)
qed

lemma withdrawal_amount_nonneg:
  assumes "draws_in_range last_day draws"
  shows "150 \<le> round2 (withdrawal_uniform draws)"
proof -
  from assms have "withdrawal_choice draws \<in> set withdrawal_reasons"
    and "fst (snd (withdrawal_choice draws)) \<le> withdrawal_uniform draws"
    by (simp_all add: draws_in_range_def)
  then have "150 \<le> withdrawal_uniform draws"
    by (auto simp: withdrawal_reasons_def)
  then have "round2 150 \<le> round2 (withdrawal_uniform draws)"
    by (rule round2_mono)
  then show ?thesis by simp
qed

lemma savings_sorted_like_checking:
  assumes y: "1 \<le> year" "year \<le> 9999"
    and l: "monthrange year month = Inr last_day"
    and d: "draws_in_range last_day draws"
    and b: "build_savings_transactions year month start_balance draws = Inr ts"
  shows "sorted (map checking_key (sort_key savings_key ts))"
proof -
  from monthrange_days [OF l] have L: "28 \<le> last_day" "last_day \<le> 31"
    by simp_all
  from d have t: "16 \<le> transfer_day draws" "transfer_day draws \<le> 20"
    and w: "5 \<le> withdrawal_day draws" "withdrawal_day draws \<le> last_day - 5"
    by (simp_all add: draws_in_range_def)
  note a = withdrawal_amount_nonneg [OF d]
  from b [unfolded build_savings_transactions_valid [OF y l d]] t w L a show ?thesis
    by (auto simp: savings_key_def checking_key_def)
qed


text \<open>
  C2. \<^const>\<open>generate_transactions\<close> returns the transactions of every list ordered by
  date ascending with ties broken by amount descending; of two same-day transactions a
  credit stands before a debit. \<^verbatim>\<open>generate_savings_transactions\<close> sorts by date only, a
  stable sort, and appends the transfer before the withdrawal, the only pair that can
  share a day: for every year, month and starting balance and all values drawn from
  \<^verbatim>\<open>random\<close>, it builds a list and returns its transactions in the same order, date
  ascending with ties broken by amount descending, credits before debits.
\<close>

theorem posting_order:
  "mset (map without_balance (fst (generate_transactions B ts))) = mset (map without_balance ts) \<and>
   ordered_by_date_amount (fst (generate_transactions B ts)) \<and>
   credits_before_debits (fst (generate_transactions B ts)) \<and>
   (1 \<le> year \<and> year \<le> 9999 \<and> monthrange year month = Inr last_day \<and>
    draws_in_range last_day draws \<longrightarrow>
      (\<exists>built. build_savings_transactions year month start_balance draws = Inr built \<and>
         mset (map without_balance (fst (generate_savings_transactions start_balance built))) =
           mset (map without_balance built) \<and>
         ordered_by_date_amount (fst (generate_savings_transactions start_balance built)) \<and>
         credits_before_debits (fst (generate_savings_transactions start_balance built))))"
proof (intro conjI impI)
  show "mset (map without_balance (fst (generate_transactions B ts))) =
      mset (map without_balance ts)"
    by (simp add: generate_transactions_def)
  have "sorted (map checking_key (sort_key checking_key ts))"
    by (rule sorted_sort_key)
  from sorted_keys_ordered [OF this, of B]
  show "ordered_by_date_amount (fst (generate_transactions B ts))"
    and "credits_before_debits (fst (generate_transactions B ts))"
    by (simp_all add: generate_transactions_def)
next
  assume a: "1 \<le> year \<and> year \<le> 9999 \<and> monthrange year month = Inr last_day \<and>
    draws_in_range last_day draws"
  then obtain built where
    b: "build_savings_transactions year month start_balance draws = Inr built"
    by (simp add: build_savings_transactions_valid)
  from a b have "sorted (map checking_key (sort_key savings_key built))"
    by (intro savings_sorted_like_checking [of year month last_day draws start_balance]) simp_all
  from sorted_keys_ordered [OF this, of start_balance]
  have "ordered_by_date_amount (fst (generate_savings_transactions start_balance built))"
    and "credits_before_debits (fst (generate_savings_transactions start_balance built))"
    by (simp_all add: generate_savings_transactions_def)
  moreover
  have "mset (map without_balance (fst (generate_savings_transactions start_balance built))) =
      mset (map without_balance built)"
    by (simp add: generate_savings_transactions_def)
  ultimately
  show "\<exists>built. build_savings_transactions year month start_balance draws = Inr built \<and>
         mset (map without_balance (fst (generate_savings_transactions start_balance built))) =
           mset (map without_balance built) \<and>
         ordered_by_date_amount (fst (generate_savings_transactions start_balance built)) \<and>
         credits_before_debits (fst (generate_savings_transactions start_balance built))"
    using b by blast
qed

theorem posting_order_witness:
  "fst (generate_transactions 1000 debit_then_credit) =
     [((2024, 1, 10), ''Deposit'', 200, 1200), ((2024, 1, 10), ''Withdrawal'', - 50, 1150)] \<and>
   ordered_by_date_amount (fst (generate_transactions 1000 debit_then_credit)) \<and>
   credits_before_debits (fst (generate_transactions 1000 debit_then_credit)) \<and>
   (1 :: int) \<le> 2024 \<and> (2024 :: int) \<le> 9999 \<and> monthrange 2024 1 = Inr 31 \<and>
   draws_in_range 31 same_day_draws \<and>
   build_savings_transactions 2024 1 8500 same_day_draws =
     Inr [((2024, 1, 18), ''Transfer from Checking ****4827'', 500, 9000),
          ((2024, 1, 31), ''Interest Payment'', 301 / 10, 90301 / 10),
          ((2024, 1, 18), ''Transfer to Checking - Car Repair'', - 350, 86801 / 10)] \<and>
   fst (generate_savings_transactions 8500
          [((2024, 1, 18), ''Transfer from Checking ****4827'', 500, 9000),
           ((2024, 1, 31), ''Interest Payment'', 301 / 10, 90301 / 10),
           ((2024, 1, 18), ''Transfer to Checking - Car Repair'', - 350, 86801 / 10)]) =
     [((2024, 1, 18), ''Transfer from Checking ****4827'', 500, 9000),
      ((2024, 1, 18), ''Transfer to Checking - Car Repair'', - 350, 8650),
      ((2024, 1, 31), ''Interest Payment'', 301 / 10, 86801 / 10)] \<and>
   ordered_by_date_amount
     [((2024, 1, 18), ''Transfer from Checking ****4827'', 500, 9000),
      ((2024, 1, 18), ''Transfer to Checking - Car Repair'', - 350, 8650),
      ((2024, 1, 31), ''Interest Payment'', 301 / 10, 86801 / 10)] \<and>
   credits_before_debits
     [((2024, 1, 18), ''Transfer from Checking ****4827'', 500, 9000),
      ((2024, 1, 18), ''Transfer to Checking - Car Repair'', - 350, 8650),
      ((2024, 1, 31), ''Interest Payment'', 301 / 10, 86801 / 10)]"
proof -
  have m: "monthrange 2024 1 = Inr 31"
    by (simp add: monthrange_def mdays_def)
  have r: "draws_in_range 31 same_day_draws"
    by (simp add: draws_in_range_def same_day_draws_def withdrawal_reasons_def)
  have b: "build_savings_transactions 2024 1 8500 same_day_draws =
     Inr [((2024, 1, 18), ''Transfer from Checking ****4827'', 500, 9000),
          ((2024, 1, 31), ''Interest Payment'', 301 / 10, 90301 / 10),
          ((2024, 1, 18), ''Transfer to Checking - Car Repair'', - 350, 86801 / 10)]"
    unfolding build_savings_transactions_valid [of 2024 1 31 same_day_draws 8500, OF _ _ m r, simplified]
    by (simp add: same_day_draws_def apy_def round2_def round_half_even_def)
  have g: "fst (generate_savings_transactions 8500
          [((2024, 1, 18), ''Transfer from Checking ****4827'', 500, 9000),
           ((2024, 1, 31), ''Interest Payment'', 301 / 10, 90301 / 10),
           ((2024, 1, 18), ''Transfer to Checking - Car Repair'', - 350, 86801 / 10)]) =
     [((2024, 1, 18), ''Transfer from Checking ****4827'', 500, 9000),
      ((2024, 1, 18), ''Transfer to Checking - Car Repair'', - 350, 8650),
      ((2024, 1, 31), ''Interest Payment'', 301 / 10, 86801 / 10)]"
    by (simp add: generate_savings_transactions_def savings_key_def round2_def
        round_half_even_def)
  have c: "fst (generate_transactions 1000 debit_then_credit) =
     [((2024, 1, 10), ''Deposit'', 200, 1200), ((2024, 1, 10), ''Withdrawal'', - 50, 1150)]"
    by (simp add: debit_then_credit_def generate_transactions_def checking_key_def)
  from posting_order [of 1000 debit_then_credit 2024 1 31 same_day_draws 8500] m r b g c
  show ?thesis
    by simp
qed

text \<open>
  On a list that the function does not build, the date-only key leaves same-day
  transactions in their input order.
\<close>

lemma savings_order_any_list:
  "sorted (map tx_date (fst (generate_savings_transactions B ts))) \<and>
   filter (\<lambda>x. fst x = d) (map without_balance (fst (generate_savings_transactions B ts))) =
     filter (\<lambda>x. fst x = d) (map without_balance ts)"
proof
  have "sorted (map savings_key (fst (generate_savings_transactions B ts)))"
    unfolding generate_savings_transactions_def
    by (simp only: keys_recompute [of savings_key _, OF savings_key_without_balance]
        sorted_sort_key)
  moreover have "savings_key = tx_date"
    by (rule ext) (simp add: savings_key_def)
  ultimately show "sorted (map tx_date (fst (generate_savings_transactions B ts)))"
    by simp
  have "filter (\<lambda>x. fst x = d) (map without_balance (sort_key savings_key ts)) =
      map without_balance (filter (\<lambda>x. savings_key x = d) (sort_key savings_key ts))"
    by (simp add: filter_map comp_def savings_key_without_balance)
  also have "\<dots> = map without_balance (filter (\<lambda>x. savings_key x = d) ts)"
    by (simp only: sort_key_stable)
  also have "\<dots> = filter (\<lambda>x. fst x = d) (map without_balance ts)"
    by (simp add: filter_map comp_def savings_key_without_balance)
  finally show "filter (\<lambda>x. fst x = d) (map without_balance (fst (generate_savings_transactions B ts))) =
     filter (\<lambda>x. fst x = d) (map without_balance ts)"
    by (simp add: generate_savings_transactions_def)
qed


subsection \<open>The final balance of a savings month\<close>

text \<open>
  Every amount of a list that \<^const>\<open>build_savings_transactions\<close> returns is a whole
  number of cents, so a month that starts from whole cents ends at the starting balance
  plus the sum of its amounts.
\<close>

lemma build_savings_amounts_cents:
  assumes "1 \<le> year" "year \<le> 9999" "monthrange year month = Inr last_day"
    and "draws_in_range last_day draws"
    and "build_savings_transactions year month start_balance draws = Inr built"
  shows "\<forall>t \<in> set built. cents (tx_amount t)"
proof -
  have "cents 500"
    by (simp add: cents_Ints)
  with assms(5) [unfolded build_savings_transactions_valid [OF assms(1-4)]] show ?thesis
    by (auto simp: cents_minus)
qed

lemma savings_month_final_balance:
  assumes "1 \<le> year" "year \<le> 9999" "monthrange year month = Inr last_day"
    and "draws_in_range last_day draws" and "cents start_balance"
  shows "\<exists>built. build_savings_transactions year month start_balance draws = Inr built \<and>
           snd (generate_savings_transactions start_balance built) =
             start_balance + sum_list (map tx_amount built)"
proof -
  obtain built where b: "build_savings_transactions year month start_balance draws = Inr built"
    by (simp add: build_savings_transactions_valid [OF assms(1-4)])
  from build_savings_amounts_cents [OF assms(1-4) b] assms(5)
  have "snd (generate_savings_transactions start_balance built) =
      start_balance + sum_list (map tx_amount built)"
    by (simp add: generate_savings_transactions_def snd_recompute_cents sum_list_sort_key)
  with b show ?thesis by blast
qed



section \<open>The bracket loop\<close>

lemma tax_loop_break: "I \<le> p \<Longrightarrow> tax_loop I bs (t, Fin p) = (t, Fin p)"
  by (cases bs) auto

lemma tax_loop_PosInf: "tax_loop I bs (t, PosInf) = (t, PosInf)"
  by (cases bs) auto

lemma tax_loop_step:
  "p < I \<Longrightarrow>
   tax_loop I ((bl, r) # bs) (t, Fin p) = tax_loop I bs (t + (min_limit I bl - p) * r, bl)"
  by simp

declare tax_loop.simps(2) [simp del]

lemma limit_less_Fin: "limit_less l (Fin b) \<Longrightarrow> \<exists>a. l = Fin a \<and> a < b"
  by (cases l) auto

lemma limit_less_trans: "limit_less a b \<Longrightarrow> limit_less b c \<Longrightarrow> limit_less a c"
  by (cases a; cases b; cases c) auto

lemma valid_from_last:
  "valid_from l bs \<Longrightarrow> bs \<noteq> [] \<Longrightarrow> limit_less l (fst (last bs))"
proof (induction bs arbitrary: l)
  case Nil
  then show ?case by simp
next
  case (Cons b bs)
  obtain bl r where b: "b = (bl, r)" by (cases b)
  show ?case
  proof (cases "bs = []")
    case True
    with Cons.prems show ?thesis by (simp add: b)
  next
    case False
    with Cons.prems Cons.IH [of bl] have "limit_less bl (fst (last bs))"
      by (simp add: b)
    moreover from Cons.prems have "limit_less l bl"
      by (simp add: b)
    ultimately show ?thesis
      using False by (simp add: limit_less_trans)
  qed
qed

lemma tax_loop_boundary:
  "valid_from (Fin p) fs \<Longrightarrow> fs \<noteq> [] \<Longrightarrow> fst (last fs) = Fin I \<Longrightarrow>
   tax_loop I (fs @ rest) (t, Fin p) = (t + full_bracket_tax p fs, Fin I)"
proof (induction fs arbitrary: p t)
  case Nil
  then show ?case by simp
next
  case (Cons b fs)
  obtain bl r where b: "b = (bl, r)" by (cases b)
  from valid_from_last [OF Cons.prems(1,2)] Cons.prems(3) have pI: "p < I"
    by simp
  show ?case
  proof (cases "fs = []")
    case True
    with Cons.prems have "bl = Fin I"
      by (simp add: b)
    with pI True show ?thesis
      by (simp add: b tax_loop_step tax_loop_break)
  next
    case False
    from Cons.prems(1) have v: "valid_from bl fs"
      by (simp add: b)
    from valid_from_last [OF v False] Cons.prems(3) False have "limit_less bl (Fin I)"
      by simp
    then obtain q where bl: "bl = Fin q" and qI: "q < I"
      by (auto dest: limit_less_Fin)
    from Cons.prems(3) False have l: "fst (last fs) = Fin I"
      by simp
    from qI have m: "min I q = q"
      by simp
    show ?thesis
      using Cons.IH [OF v [unfolded bl] False l, of "t + (q - p) * r"] pI
      by (simp add: b bl tax_loop_step m)
  qed
qed

lemma valid_from_append_Inf:
  "valid_from l (fs @ [(PosInf, r)]) \<Longrightarrow> (bl, r') \<in> set fs \<Longrightarrow> \<exists>q. bl = Fin q"
proof (induction fs arbitrary: l)
  case Nil
  then show ?case by simp
next
  case (Cons b fs)
  obtain bl0 r0 where b: "b = (bl0, r0)" by (cases b)
  from Cons.prems(1) have v: "valid_from bl0 (fs @ [(PosInf, r)])"
    by (simp add: b)
  show ?case
  proof (cases "(bl, r') = b")
    case True
    have "fs @ [(PosInf, r)] \<noteq> []" by simp
    from valid_from_last [OF v this] have "limit_less bl0 PosInf"
      by simp
    then have "\<exists>q. bl0 = Fin q"
      by (cases bl0) auto
    with True show ?thesis by (simp add: b)
  next
    case False
    with Cons.prems(2) have "(bl, r') \<in> set fs" by simp
    with Cons.IH [OF v] show ?thesis .
  qed
qed

lemma tax_loop_through:
  "valid_from (Fin p) (fs @ [(PosInf, r)]) \<Longrightarrow> last_bound p fs < I \<Longrightarrow>
   tax_loop I (fs @ rest) (t, Fin p) =
     tax_loop I rest (t + full_bracket_tax p fs, Fin (last_bound p fs))"
proof (induction fs arbitrary: p t)
  case Nil
  then show ?case by simp
next
  case (Cons b fs)
  obtain bl r0 where b: "b = (bl, r0)" by (cases b)
  from valid_from_append_Inf [OF Cons.prems(1), of bl r0] obtain q where bl: "bl = Fin q"
    by (auto simp: b)
  from Cons.prems(1) have pq: "p < q" and v: "valid_from (Fin q) (fs @ [(PosInf, r)])"
    by (simp_all add: b bl)
  from Cons.prems(2) have lb: "last_bound q fs < I"
    by (simp add: b bl)
  have "q \<le> last_bound q fs"
    using v
  proof (induction fs arbitrary: q)
    case Nil
    show ?case by simp
  next
    case (Cons c cs)
    obtain lc rc where c: "c = (lc, rc)" by (cases c)
    from valid_from_append_Inf [OF Cons.prems, of lc rc] obtain q' where lc: "lc = Fin q'"
      by (auto simp: c)
    from Cons.prems have "q < q'" and "valid_from (Fin q') (cs @ [(PosInf, r)])"
      by (simp_all add: c lc)
    with Cons.IH [of q'] show ?case
      by (simp add: c lc)
  qed
  with lb have qI: "q < I" by simp
  with pq have pI: "p < I" by simp
  from qI have m: "min I q = q" by simp
  show ?case
    using Cons.IH [OF v lb, of "t + (q - p) * r0"] pI
    by (simp add: b bl tax_loop_step m add.assoc)
qed

text \<open>
  C7. Income 0 yields tax 0. For a valid table whose bracket \<open>fs\<close> ends exactly at the
  taxable income \<open>I\<close>, the calculator taxes every bracket of \<open>fs\<close> in full and applies
  none of the brackets \<open>rest\<close> that follow: the loop stops with \<open>prev_bracket = I\<close>. For
  income above the last finite bound, the brackets below the unbounded one are taxed in
  full and all remaining income at the top rate.
\<close>

theorem boundary_and_top_bracket:
  "calculate_tax 0 brackets = 0 \<and>
   (valid_brackets fs \<and> fs \<noteq> [] \<and> fst (last fs) = Fin I \<longrightarrow>
      tax_loop I (fs @ rest) (0, Fin 0) = (full_bracket_tax 0 fs, Fin I) \<and>
      calculate_tax I (fs @ rest) = round2 (full_bracket_tax 0 fs)) \<and>
   (valid_brackets (fs @ [(PosInf, top_rate)]) \<and> last_bound 0 fs < I \<longrightarrow>
      calculate_tax I (fs @ (PosInf, top_rate) # rest) =
        round2 (full_bracket_tax 0 fs + (I - last_bound 0 fs) * top_rate))"
proof (intro conjI impI)
  show "calculate_tax 0 brackets = 0"
    by (simp add: calculate_tax_def tax_loop_break)
next
  assume "valid_brackets fs \<and> fs \<noteq> [] \<and> fst (last fs) = Fin I"
  then have "tax_loop I (fs @ rest) (0, Fin 0) = (0 + full_bracket_tax 0 fs, Fin I)"
    unfolding valid_brackets_def by (intro tax_loop_boundary) simp_all
  then show "tax_loop I (fs @ rest) (0, Fin 0) = (full_bracket_tax 0 fs, Fin I)"
    and "calculate_tax I (fs @ rest) = round2 (full_bracket_tax 0 fs)"
    by (simp_all add: calculate_tax_def)
next
  assume a: "valid_brackets (fs @ [(PosInf, top_rate)]) \<and> last_bound 0 fs < I"
  then have "tax_loop I (fs @ (PosInf, top_rate) # rest) (0, Fin 0) =
      tax_loop I ((PosInf, top_rate) # rest) (0 + full_bracket_tax 0 fs, Fin (last_bound 0 fs))"
    unfolding valid_brackets_def by (intro tax_loop_through [of _ _ top_rate]) simp_all
  with a show "calculate_tax I (fs @ (PosInf, top_rate) # rest) =
      round2 (full_bracket_tax 0 fs + (I - last_bound 0 fs) * top_rate)"
    by (simp add: calculate_tax_def tax_loop_step tax_loop_PosInf)
qed


theorem boundary_and_top_bracket_witness:
  "valid_brackets [(Fin 22000, 10 / 100), (Fin 89450, 12 / 100)] \<and>
   fst (last [(Fin 22000, 10 / 100), (Fin 89450, 12 / 100 :: rat)]) = Fin 89450 \<and>
   calculate_tax 89450 brackets_mfj = 10294 \<and>
   valid_brackets brackets_mfj \<and>
   last_bound 0 (butlast brackets_mfj) < 800000 \<and>
   calculate_tax 800000 brackets_mfj = 225914 \<and>
   calculate_tax 0 brackets_mfj = 0"
  using boundary_and_top_bracket [of brackets_mfj
      "[(Fin 22000, 10 / 100), (Fin 89450, 12 / 100)]" 89450
      "[(Fin 190750, 22 / 100), (Fin 364200, 24 / 100), (Fin 462500, 32 / 100),
        (Fin 693750, 35 / 100), (PosInf, 37 / 100)]"
      "37 / 100"]
    boundary_and_top_bracket [of brackets_mfj "butlast brackets_mfj" 800000 "[]" "37 / 100"]
  by (simp add: brackets_mfj_def valid_brackets_def)

section \<open>Monotonicity\<close>

lemma min_limit_mono: "I1 \<le> I2 \<Longrightarrow> min_limit I1 l \<le> min_limit I2 l"
  by (cases l) auto

lemma min_limit_above: "limit_less (Fin p) l \<Longrightarrow> p < I \<Longrightarrow> p < min_limit I l"
  by (cases l) auto

lemma tax_loop_lower:
  "valid_from l bs \<Longrightarrow> t \<le> fst (tax_loop I bs (t, l))"
proof (induction bs arbitrary: l t)
  case Nil
  show ?case by simp
next
  case (Cons b bs)
  obtain bl r where b: "b = (bl, r)" by (cases b)
  show ?case
  proof (cases l)
    case PosInf
    then show ?thesis by (simp add: tax_loop_PosInf)
  next
    case (Fin p)
    show ?thesis
    proof (cases "I \<le> p")
      case True
      then show ?thesis by (simp add: Fin tax_loop_break)
    next
      case False
      then have pI: "p < I" by simp
      from Cons.prems have l: "limit_less (Fin p) bl" and r: "0 \<le> r" and v: "valid_from bl bs"
        by (simp_all add: b Fin)
      from min_limit_above [OF l pI] r have "0 \<le> (min_limit I bl - p) * r"
        by simp
      moreover from Cons.IH [OF v]
      have "t + (min_limit I bl - p) * r \<le> fst (tax_loop I bs (t + (min_limit I bl - p) * r, bl))" .
      ultimately show ?thesis
        using pI by (simp add: b Fin tax_loop_step)
    qed
  qed
qed

lemma tax_loop_mono:
  "valid_from l bs \<Longrightarrow> I1 \<le> I2 \<Longrightarrow> t1 \<le> t2 \<Longrightarrow>
   fst (tax_loop I1 bs (t1, l)) \<le> fst (tax_loop I2 bs (t2, l))"
proof (induction bs arbitrary: l t1 t2)
  case Nil
  then show ?case by simp
next
  case (Cons b bs)
  obtain bl r where b: "b = (bl, r)" by (cases b)
  show ?case
  proof (cases l)
    case PosInf
    with Cons.prems show ?thesis by (simp add: tax_loop_PosInf)
  next
    case (Fin p)
    from Cons.prems(1) have l: "limit_less (Fin p) bl" and r: "0 \<le> r" and v: "valid_from bl bs"
      by (simp_all add: b Fin)
    consider "I2 \<le> p" | "I1 \<le> p" "p < I2" | "p < I1"
      by linarith
    then show ?thesis
    proof cases
      case 1
      with Cons.prems show ?thesis by (simp add: Fin tax_loop_break)
    next
      case 2
      from tax_loop_lower [OF Cons.prems(1), of t2 I2] Cons.prems(3) 2(1)
      show ?thesis by (simp add: Fin tax_loop_break)
    next
      case 3
      with Cons.prems(2) have p2: "p < I2" by simp
      from min_limit_mono [OF Cons.prems(2), of bl] r
      have "(min_limit I1 bl - p) * r \<le> (min_limit I2 bl - p) * r"
        by (simp add: mult_right_mono)
      with Cons.prems(3)
      have "t1 + (min_limit I1 bl - p) * r \<le> t2 + (min_limit I2 bl - p) * r"
        by simp
      from Cons.IH [OF v Cons.prems(2) this] 3 p2 show ?thesis
        by (simp add: b Fin tax_loop_step)
    qed
  qed
qed

text \<open>
  C6. For a valid bracket table and taxable incomes \<open>0 \<le> I1 \<le> I2\<close>, the tax on
  \<open>I1\<close> is at most the tax on \<open>I2\<close>.
\<close>

theorem calculate_tax_monotone:
  assumes "valid_brackets brackets" and "0 \<le> I1" and "I1 \<le> I2"
  shows "calculate_tax I1 brackets \<le> calculate_tax I2 brackets"
  unfolding calculate_tax_def
  using assms(1,3) by (intro round2_mono tax_loop_mono) (simp_all add: valid_brackets_def)

theorem calculate_tax_monotone_witness:
  "valid_brackets brackets_mfj \<and> (0::rat) \<le> 30000 \<and> (30000::rat) \<le> 100000 \<and>
   calculate_tax 30000 brackets_mfj = 3160 \<and>
   calculate_tax 100000 brackets_mfj = 12615 \<and>
   calculate_tax 30000 brackets_mfj \<le> calculate_tax 100000 brackets_mfj"
  using calculate_tax_monotone [of brackets_mfj 30000 100000]
  by (simp add: brackets_mfj_def valid_brackets_def calculate_tax_def tax_loop_step
      tax_loop_break)

section \<open>Income at or below zero\<close>

text \<open>
  C9. For taxable income at or below 0 the loop leaves \<open>tax\<close> and \<open>prev_bracket\<close> at
  their initial values, so nothing is accumulated, and the calculator returns 0, for any
  bracket table.
\<close>

theorem nonpositive_income_no_tax:
  assumes "I \<le> 0"
  shows "tax_loop I brackets (0, Fin 0) = (0, Fin 0) \<and> calculate_tax I brackets = 0"
  using assms by (simp add: calculate_tax_def tax_loop_break)

theorem nonpositive_income_no_tax_witness:
  "(- 5000 :: rat) \<le> 0 \<and> tax_loop (- 5000) brackets_mfj (0, Fin 0) = (0, Fin 0) \<and>
   calculate_tax (- 5000) brackets_mfj = 0"
  using nonpositive_income_no_tax [of "- 5000" brackets_mfj] by simp

section \<open>Percentage change against a zero base\<close>

text \<open>
  C3, as the code has it. The division is not guarded: with a beginning balance of 0 the
  computation raises \<^verbatim>\<open>ZeroDivisionError\<close>. With any other beginning balance it
  returns the change and the change as a percentage of the beginning balance.
\<close>

theorem change_pct_unguarded:
  "add_account_summary ending_balance 0 = Inl ZeroDivisionError \<and>
   (beginning_balance \<noteq> 0 \<longrightarrow>
      add_account_summary ending_balance beginning_balance =
        Inr (ending_balance - beginning_balance,
             (ending_balance - beginning_balance) / beginning_balance * 100))"
  by (simp add: add_account_summary_def)

theorem change_pct_unguarded_witness:
  "(142500 :: rat) \<noteq> 0 \<and>
   add_account_summary 150000 142500 = Inr (7500, 100 / 19) \<and>
   add_account_summary 150000 0 = Inl ZeroDivisionError"
  using change_pct_unguarded [of 150000 142500] by simp

text \<open>
  An ending balance of 1000 against a beginning balance of 0 is a fault, not 0 percent.
\<close>

theorem change_pct_unguarded_counterexample:
  "add_account_summary 1000 0 = Inl ZeroDivisionError \<and>
   add_account_summary 1000 0 \<noteq> Inr (1000, 0)"
  by (simp add: add_account_summary_def)

end
